theory Spec2Isabelle
  imports Main
begin

section \<open>Choice model\<close>

text \<open>
  The source type \<^verbatim>\<open>Choice\<close> has a mandatory \<^verbatim>\<open>value\<close> and three optional fields;
  \<^verbatim>\<open>disabled\<close> is \<^verbatim>\<open>boolean | string\<close>. An optional field that is absent is \<open>None\<close>.
\<close>

datatype disabled = DisabledBool bool | DisabledText string

record Choice =
  choice_value :: string
  choice_name :: "string option"
  choice_description :: "string option"
  choice_disabled :: "disabled option"

text \<open>
  Modelled from the spec: the class \<^verbatim>\<open>Separator\<close>, which the source imports from the core
  package (a distinct marker entity, not a Choice, carrying a display label). An entry of
  \<^verbatim>\<open>choices\<close> is a \<^verbatim>\<open>Choice\<close> or a \<^verbatim>\<open>Separator\<close>; the select prompt reads only the
  \<^verbatim>\<open>separator\<close> label of a separator and asks \<^verbatim>\<open>Separator.isSeparator\<close>, which is the
  discriminant of this datatype.
\<close>

datatype entry = IsChoice Choice | IsSeparator string

text \<open>JavaScript truthiness of the \<^verbatim>\<open>disabled\<close> field: absent, \<^verbatim>\<open>false\<close> and the empty
  string are falsy.\<close>

fun truthy_disabled :: "disabled option \<Rightarrow> bool" where
  "truthy_disabled None = False"
| "truthy_disabled (Some (DisabledBool b)) = b"
| "truthy_disabled (Some (DisabledText t)) = (t \<noteq> [])"

text \<open>\<^verbatim>\<open>choices[i]\<close> for an integer \<open>i\<close>: \<^verbatim>\<open>undefined\<close> (here \<open>None\<close>) out of range.\<close>

definition index_at :: "'a list \<Rightarrow> int \<Rightarrow> 'a option" where
  "index_at xs i = (if 0 \<le> i \<and> i < int (length xs) then Some (xs ! nat i) else None)"

text \<open>
  \<^verbatim>\<open>return choice != null && !Separator.isSeparator(choice) && !choice.disabled;\<close>
\<close>

fun isSelectableChoice :: "entry option \<Rightarrow> bool" where
  "isSelectableChoice None = False"
| "isSelectableChoice (Some (IsSeparator l)) = False"
| "isSelectableChoice (Some (IsChoice c)) = (\<not> truthy_disabled (choice_disabled c))"

section \<open>Prompt state and construction\<close>

datatype status = Pending | Done

record PromptState =
  status :: status
  cursorPosition :: int

datatype error = NoSelectableChoices | TypeError

text \<open>\<^verbatim>\<open>Array.prototype.findIndex\<close>: the index of the first element accepted, or \<open>-1\<close>.\<close>

fun findIndex :: "('a \<Rightarrow> bool) \<Rightarrow> 'a list \<Rightarrow> int" where
  "findIndex P [] = - 1"
| "findIndex P (x # xs) =
     (if P x then 0
      else (let i = findIndex P xs in if i < 0 then - 1 else i + 1))"

text \<open>
  The two \<^verbatim>\<open>useState\<close> initialisers: status \<^verbatim>\<open>'pending'\<close>, and the cursor on the first
  selectable entry; the initialiser throws when \<^verbatim>\<open>findIndex\<close> answers a negative index.
\<close>

definition initialState :: "entry list \<Rightarrow> error + PromptState" where
  "initialState choices =
     (let startIndex = findIndex (\<lambda>e. isSelectableChoice (Some e)) choices in
      if startIndex < 0 then Inl NoSelectableChoices
      else Inr \<lparr>status = Pending, cursorPosition = startIndex\<rparr>)"

section \<open>Cursor navigation\<close>

text \<open>
  The remainder operator \<^verbatim>\<open>%\<close> of JavaScript truncates towards zero: the result has the
  sign of the dividend. It is used here with a non-zero divisor only; a zero divisor
  (the empty list) is a branch of \<open>findNext\<close>.
\<close>

definition jsRem :: "int \<Rightarrow> int \<Rightarrow> int" where
  "jsRem a b = sgn a * (\<bar>a\<bar> mod \<bar>b\<bar>)"

text \<open>
  The loop of the arrow-key branch:
  \<^verbatim>\<open>
  while (!isSelectableChoice(selectedOption)) {
    newCursorPosition = (newCursorPosition + offset + choices.length) % choices.length;
    selectedOption = choices[newCursorPosition];
  }
  \<close>
  \<^verbatim>\<open>selectedOption\<close> starts undefined, so the body runs at least once. The loop may run
  for ever; not returning is the value \<open>None\<close>. On the empty list the remainder is
  \<^verbatim>\<open>NaN\<close>, \<^verbatim>\<open>choices[NaN]\<close> is undefined and \<^verbatim>\<open>NaN\<close> propagates, so the loop never
  exits.
\<close>

partial_function (option) findNext :: "entry list \<Rightarrow> int \<Rightarrow> int \<Rightarrow> int option" where
  "findNext choices offset pos =
     (if length choices = 0 then None
      else
        (let newCursorPosition =
               jsRem (pos + offset + int (length choices)) (int (length choices))
         in if isSelectableChoice (index_at choices newCursorPosition)
            then Some newCursorPosition
            else findNext choices offset newCursorPosition))"

section \<open>Key handler\<close>

text \<open>
  Modelled from the spec: the key classifiers \<^verbatim>\<open>isEnterKey\<close>, \<^verbatim>\<open>isUpKey\<close>,
  \<^verbatim>\<open>isDownKey\<close> and \<^verbatim>\<open>isNumberKey\<close>, which the source imports from the core package. A
  key is given here by the event it is (confirm, directional step up or down, numeric
  jump), that is by the branch of the handler it takes; \<open>NumberKey n\<close> carries
  \<^verbatim>\<open>Number(key.name)\<close>, and \<open>OtherKey\<close> is a key no classifier accepts.
\<close>

datatype key = EnterKey | UpKey | DownKey | NumberKey int | OtherKey

text \<open>\<^verbatim>\<open>choice.value\<close> where \<^verbatim>\<open>choice\<close> is \<^verbatim>\<open>choices[cursorPosition] as Choice\<close>: a
  separator has no such field, and reading it gives \<^verbatim>\<open>undefined\<close> (\<open>None\<close>).\<close>

fun entry_value :: "entry \<Rightarrow> string option" where
  "entry_value (IsChoice c) = Some (choice_value c)"
| "entry_value (IsSeparator l) = None"

text \<open>
  One run of the handler on a key. The result is \<open>None\<close> when the handler does not
  return, \<open>Inl\<close> when it throws, and otherwise the state after the calls of
  \<^verbatim>\<open>setStatus\<close> and \<^verbatim>\<open>setCursorPos\<close>, with the arguments of the calls of \<^verbatim>\<open>done\<close>
  in order. The handler does not read \<^verbatim>\<open>status\<close>.
\<close>

definition onKeypress ::
  "entry list \<Rightarrow> PromptState \<Rightarrow> key \<Rightarrow> (error + PromptState \<times> string option list) option" where
  "onKeypress choices s k =
     (case k of
        EnterKey \<Rightarrow>
          (case index_at choices (cursorPosition s) of
             None \<Rightarrow> Some (Inl TypeError)
           | Some choice \<Rightarrow> Some (Inr (s\<lparr>status := Done\<rparr>, [entry_value choice])))
      | UpKey \<Rightarrow>
          (case findNext choices (- 1) (cursorPosition s) of
             None \<Rightarrow> None
           | Some newCursorPosition \<Rightarrow> Some (Inr (s\<lparr>cursorPosition := newCursorPosition\<rparr>, [])))
      | DownKey \<Rightarrow>
          (case findNext choices 1 (cursorPosition s) of
             None \<Rightarrow> None
           | Some newCursorPosition \<Rightarrow> Some (Inr (s\<lparr>cursorPosition := newCursorPosition\<rparr>, [])))
      | NumberKey n \<Rightarrow>
          (let newCursorPosition = n - 1 in
           if \<not> isSelectableChoice (index_at choices newCursorPosition) then Some (Inr (s, []))
           else Some (Inr (s\<lparr>cursorPosition := newCursorPosition\<rparr>, [])))
      | OtherKey \<Rightarrow> Some (Inr (s, [])))"

text \<open>The states a prompt can be in: the initial one, and those the handler produces.\<close>

inductive reachable :: "entry list \<Rightarrow> PromptState \<Rightarrow> bool" for choices :: "entry list" where
  reachable_init: "initialState choices = Inr s \<Longrightarrow> reachable choices s"
| reachable_step:
    "reachable choices s \<Longrightarrow> onKeypress choices s k = Some (Inr (s', out)) \<Longrightarrow> reachable choices s'"

code_pred reachable .

text \<open>
  The keys of a session, handled one after the other; the session stops where the handler
  throws or does not return. The calls of \<^verbatim>\<open>done\<close> are collected in order.
\<close>

fun runKeys ::
  "entry list \<Rightarrow> PromptState \<Rightarrow> key list \<Rightarrow> (error + PromptState \<times> string option list) option" where
  "runKeys cs s [] = Some (Inr (s, []))"
| "runKeys cs s (k # ks) =
     (case onKeypress cs s k of
        None \<Rightarrow> None
      | Some (Inl e) \<Rightarrow> Some (Inl e)
      | Some (Inr (s', out)) \<Rightarrow>
          (case runKeys cs s' ks of
             None \<Rightarrow> None
           | Some (Inl e) \<Rightarrow> Some (Inl e)
           | Some (Inr (s'', out')) \<Rightarrow> Some (Inr (s'', out @ out'))))"

subsection \<open>The directional step as the specification words it\<close>

text \<open>
  One step of the search in the specification's words: add the offset modulo the list
  length, with the mathematical (never negative) remainder. The body of the loop in the
  source computes \<open>advance\<close>, with the remainder of JavaScript.
\<close>

definition stepIndex :: "nat \<Rightarrow> int \<Rightarrow> int \<Rightarrow> int" where
  "stepIndex n offset i = (i + offset) mod int n"

definition advance :: "entry list \<Rightarrow> int \<Rightarrow> int \<Rightarrow> int" where
  "advance cs offset pos = jsRem (pos + offset + int (length cs)) (int (length cs))"

section \<open>Frame renderer\<close>

text \<open>
  What the view takes from outside this file: the prefix of \<^verbatim>\<open>usePrefix\<close>, the styles of
  \<^verbatim>\<open>chalk\<close>, the pointer glyph of \<^verbatim>\<open>figures\<close>, the control sequence
  \<^verbatim>\<open>ansiEscapes.cursorHide\<close> and the method \<^verbatim>\<open>paginate\<close> of the paginator, which
  receives the rendered list, the cursor position and the optional page size.
\<close>

record Env =
  usePrefix :: string
  chalk_bold :: "string \<Rightarrow> string"
  chalk_dim :: "string \<Rightarrow> string"
  chalk_cyan :: "string \<Rightarrow> string"
  figures_pointer :: string
  ansi_cursorHide :: string
  paginate :: "string \<Rightarrow> int \<Rightarrow> int option \<Rightarrow> string"

record SelectConfig =
  message :: string
  choices :: "entry list"
  pageSize :: "int option"

definition newline :: string where
  "newline = [CHR 0x0A]"

definition hint :: string where
  "hint = '' (Use arrow keys)''"

text \<open>\<^verbatim>\<open>choice.name || choice.value\<close> on a \<^verbatim>\<open>Choice\<close>: an absent or empty name is falsy.\<close>

definition name_or_value :: "Choice \<Rightarrow> string" where
  "name_or_value c =
     (case choice_name c of
        None \<Rightarrow> choice_value c
      | Some n \<Rightarrow> if n \<noteq> [] then n else choice_value c)"

text \<open>
  The same expression on \<^verbatim>\<open>choices[cursorPosition] as Choice\<close>. A separator has neither
  field, the expression is \<^verbatim>\<open>undefined\<close>, and \<^verbatim>\<open>chalk\<close> turns its argument into the
  string \<^verbatim>\<open>undefined\<close>.
\<close>

fun cursor_label :: "entry \<Rightarrow> string" where
  "cursor_label (IsChoice c) = name_or_value c"
| "cursor_label (IsSeparator l) = ''undefined''"

text \<open>\<^verbatim>\<open>choice.description ? `\n${choice.description}` : ``\<close> on the same entry.\<close>

fun cursor_description :: "entry \<Rightarrow> string" where
  "cursor_description (IsChoice c) =
     (case choice_description c of
        None \<Rightarrow> []
      | Some d \<Rightarrow> if d \<noteq> [] then newline @ d else [])"
| "cursor_description (IsSeparator l) = []"

text \<open>The callback of \<^verbatim>\<open>choices.map\<close>: one line of the list body.\<close>

fun renderChoice :: "Env \<Rightarrow> int \<Rightarrow> nat \<times> entry \<Rightarrow> string" where
  "renderChoice env cursor (index, IsSeparator l) = '' '' @ l"
| "renderChoice env cursor (index, IsChoice c) =
     (let line = name_or_value c in
      if truthy_disabled (choice_disabled c) then
        (let disabledLabel =
               (case choice_disabled c of Some (DisabledText t) \<Rightarrow> t | _ \<Rightarrow> ''(disabled)'')
         in chalk_dim env (''- '' @ line @ '' '' @ disabledLabel))
      else if int index = cursor then chalk_cyan env (figures_pointer env @ '' '' @ line)
      else ''  '' @ line)"

text \<open>\<^verbatim>\<open>Array.prototype.join\<close>.\<close>

fun join :: "string \<Rightarrow> string list \<Rightarrow> string" where
  "join sep [] = []"
| "join sep [x] = x"
| "join sep (x # y # ys) = x @ sep @ join sep (y # ys)"

text \<open>The header: the message in bold, followed by the hint while \<^verbatim>\<open>firstRender.current\<close>
  is true.\<close>

definition renderMessage :: "Env \<Rightarrow> SelectConfig \<Rightarrow> bool \<Rightarrow> string" where
  "renderMessage env config first =
     (if first then chalk_bold env (message config) @ chalk_dim env hint
      else chalk_bold env (message config))"

text \<open>
  The frame the view returns in state \<open>s\<close>, given the value of \<^verbatim>\<open>firstRender.current\<close>.
  Reading a field of \<^verbatim>\<open>choice\<close> throws when \<^verbatim>\<open>choices[cursorPosition]\<close> is undefined;
  both branches read one.
\<close>

definition render :: "Env \<Rightarrow> SelectConfig \<Rightarrow> PromptState \<Rightarrow> bool \<Rightarrow> error + string" where
  "render env config s first =
     (let msg = renderMessage env config first in
      case index_at (choices config) (cursorPosition s) of
        None \<Rightarrow> Inl TypeError
      | Some choice \<Rightarrow>
          if status s = Done then
            Inr (usePrefix env @ '' '' @ msg @ '' '' @ chalk_cyan env (cursor_label choice))
          else
            (let allChoices =
                   join newline
                     (map (renderChoice env (cursorPosition s)) (enumerate 0 (choices config)));
                 windowedChoices = paginate env allChoices (cursorPosition s) (pageSize config);
                 choiceDescription = cursor_description choice
             in Inr (usePrefix env @ '' '' @ msg @ newline @ windowedChoices @ choiceDescription
                       @ ansi_cursorHide env)))"

text \<open>The mutable reference \<^verbatim>\<open>firstRender\<close>; every run of the view leaves it false.\<close>

record Refs =
  firstRender :: bool

definition view :: "Env \<Rightarrow> SelectConfig \<Rightarrow> Refs \<Rightarrow> PromptState \<Rightarrow> (error + string) \<times> Refs" where
  "view env config refs s = (render env config s (firstRender refs), refs\<lparr>firstRender := False\<rparr>)"

text \<open>The frames of a prompt's lifetime: the view run once for each state it is rendered
  in, the reference threaded through.\<close>

fun renderAll :: "Env \<Rightarrow> SelectConfig \<Rightarrow> Refs \<Rightarrow> PromptState list \<Rightarrow> (error + string) list" where
  "renderAll env config refs [] = []"
| "renderAll env config refs (s # ss) =
     (case view env config refs s of (frame, refs') \<Rightarrow> frame # renderAll env config refs' ss)"

text \<open>
  The first run of the view: the state initialisers run before anything is returned, so
  an initialiser that throws leaves no frame.
\<close>

definition start :: "Env \<Rightarrow> SelectConfig \<Rightarrow> error + PromptState \<times> string" where
  "start env config =
     (case initialState (choices config) of
        Inl e \<Rightarrow> Inl e
      | Inr s \<Rightarrow>
          (case render env config s True of
             Inl e \<Rightarrow> Inl e
           | Inr frame \<Rightarrow> Inr (s, frame)))"

text \<open>The display label in the specification's words: the name, or the value when the
  name is absent.\<close>

definition spec_label :: "Choice \<Rightarrow> string" where
  "spec_label c = (case choice_name c of None \<Rightarrow> choice_value c | Some n \<Rightarrow> n)"

subsection \<open>Values for examples\<close>

text \<open>
  An environment with \<^verbatim>\<open>chalk\<close> at colour level 0 (styles leave the text as it is), the
  ASCII pointer, the usual cursor-hiding sequence, and a paginator whose page holds the
  whole list.
\<close>

definition plainEnv :: Env where
  "plainEnv =
     \<lparr>usePrefix = ''?'',
      chalk_bold = (\<lambda>t. t),
      chalk_dim = (\<lambda>t. t),
      chalk_cyan = (\<lambda>t. t),
      figures_pointer = ''>'',
      ansi_cursorHide = [CHR 0x1B] @ ''[?25l'',
      paginate = (\<lambda>output active size. output)\<rparr>"

definition mkChoice :: "string \<Rightarrow> string option \<Rightarrow> disabled option \<Rightarrow> entry" where
  "mkChoice v n d =
     IsChoice \<lparr>choice_value = v, choice_name = n, choice_description = None, choice_disabled = d\<rparr>"

text \<open>Example 1 of the specification: a selectable choice, a separator, a disabled choice
  and a selectable choice.\<close>

definition example1 :: "entry list" where
  "example1 =
     [mkChoice ''a'' (Some ''Alpha'') None,
      IsSeparator ''---'',
      mkChoice ''b'' None (Some (DisabledBool True)),
      mkChoice ''c'' (Some ''Gamma'') None]"

text \<open>Example 2: a disabled choice, then a selectable one. Example 3: three selectable
  choices.\<close>

definition example2 :: "entry list" where
  "example2 = [mkChoice ''a'' None (Some (DisabledBool True)), mkChoice ''b'' None None]"

definition example3 :: "entry list" where
  "example3 = [mkChoice ''a'' None None, mkChoice ''b'' None None, mkChoice ''c'' None None]"

text \<open>A configuration over a given list of choices, with no page size.\<close>

definition exampleConfig :: "entry list \<Rightarrow> SelectConfig" where
  "exampleConfig cs = \<lparr>message = ''Pick'', choices = cs, pageSize = None\<rparr>"

section \<open>Properties of construction\<close>

lemma findIndex_ge: "- 1 \<le> findIndex P xs"
  by (induction xs) (auto simp: Let_def)

lemma findIndex_neg_iff: "findIndex P xs < 0 \<longleftrightarrow> (\<forall>x \<in> set xs. \<not> P x)"
  by (induction xs) (auto simp: Let_def)

lemma findIndex_first:
  "0 \<le> findIndex P xs \<Longrightarrow>
     nat (findIndex P xs) < length xs \<and> P (xs ! nat (findIndex P xs)) \<and>
     (\<forall>j < nat (findIndex P xs). \<not> P (xs ! j))"
proof (induction xs)
  case Nil
  then show ?case by simp
next
  case (Cons x xs)
  show ?case
  proof (cases "P x")
    case True
    then show ?thesis by simp
  next
    case False
    with Cons.prems have nn: "0 \<le> findIndex P xs"
      by (simp add: Let_def split: if_splits)
    with False have eq: "findIndex P (x # xs) = findIndex P xs + 1"
      by (simp add: Let_def)
    have n: "nat (findIndex P xs + 1) = Suc (nat (findIndex P xs))"
      using nn by simp
    from Cons.IH [OF nn] False show ?thesis
      unfolding eq n by (auto simp: less_Suc_eq_0_disj)
  qed
qed

lemma jsRem_nonneg: "0 \<le> a \<Longrightarrow> 0 < b \<Longrightarrow> jsRem a b = a mod b"
  by (cases "a = 0") (simp_all add: jsRem_def)

lemma isSelectable_index_at:
  "isSelectableChoice (index_at cs i) \<Longrightarrow> 0 \<le> i \<and> i < int (length cs)"
  by (auto simp: index_at_def split: if_splits)

lemma initialState_cases:
  "initialState cs = Inl NoSelectableChoices \<or>
   (\<exists>i. initialState cs = Inr \<lparr>status = Pending, cursorPosition = i\<rparr>)"
  by (simp add: initialState_def Let_def)

lemma initialState_fails_iff:
  "initialState cs = Inl NoSelectableChoices \<longleftrightarrow> (\<forall>e \<in> set cs. \<not> isSelectableChoice (Some e))"
  using findIndex_neg_iff [of "\<lambda>e. isSelectableChoice (Some e)" cs]
  by (simp add: initialState_def Let_def)

section \<open>Properties of the directional search\<close>

lemma findNext_unfold:
  "cs \<noteq> [] \<Longrightarrow>
   findNext cs offset pos =
     (if isSelectableChoice (index_at cs (advance cs offset pos))
      then Some (advance cs offset pos)
      else findNext cs offset (advance cs offset pos))"
  by (subst findNext.simps) (simp add: advance_def Let_def)

lemma findNext_first:
  "cs \<noteq> [] \<Longrightarrow>
   isSelectableChoice (index_at cs ((advance cs offset ^^ Suc k) pos)) \<Longrightarrow>
   (\<And>j. j < k \<Longrightarrow> \<not> isSelectableChoice (index_at cs ((advance cs offset ^^ Suc j) pos))) \<Longrightarrow>
   findNext cs offset pos = Some ((advance cs offset ^^ Suc k) pos)"
proof (induction k arbitrary: pos)
  case 0
  then show ?case by (simp add: findNext_unfold)
next
  case (Suc k)
  have first: "\<not> isSelectableChoice (index_at cs (advance cs offset pos))"
    using Suc.prems(3) [of 0] by simp
  have "findNext cs offset (advance cs offset pos)
          = Some ((advance cs offset ^^ Suc k) (advance cs offset pos))"
  proof (rule Suc.IH [OF Suc.prems(1)])
    show "isSelectableChoice
            (index_at cs ((advance cs offset ^^ Suc k) (advance cs offset pos)))"
      using Suc.prems(2) by (simp add: funpow_swap1)
  next
    fix j
    assume "j < k"
    then show "\<not> isSelectableChoice
                 (index_at cs ((advance cs offset ^^ Suc j) (advance cs offset pos)))"
      using Suc.prems(3) [of "Suc j"] by (simp add: funpow_swap1)
  qed
  then show ?case
    using first Suc.prems(1) by (simp add: findNext_unfold [of cs offset pos] funpow_swap1)
qed

lemma advance_in_range:
  assumes "0 \<le> pos" "pos < int (length cs)" "offset = 1 \<or> offset = - 1"
  shows "advance cs offset pos = stepIndex (length cs) offset pos"
proof -
  have "0 \<le> pos + offset + int (length cs)" "0 < int (length cs)"
    using assms by auto
  then have "advance cs offset pos = (pos + offset + int (length cs)) mod int (length cs)"
    unfolding advance_def by (rule jsRem_nonneg)
  then show ?thesis by (simp add: stepIndex_def)
qed

lemma stepIndex_range:
  "0 < n \<Longrightarrow> 0 \<le> stepIndex n offset i \<and> stepIndex n offset i < int n"
  by (simp add: stepIndex_def)

lemma stepIndex_funpow_range:
  "0 < n \<Longrightarrow> 0 \<le> i \<Longrightarrow> i < int n \<Longrightarrow>
   0 \<le> (stepIndex n offset ^^ k) i \<and> (stepIndex n offset ^^ k) i < int n"
  by (cases k) (simp_all add: stepIndex_range)

lemma advance_funpow:
  assumes "0 \<le> pos" "pos < int (length cs)" "offset = 1 \<or> offset = - 1"
  shows "(advance cs offset ^^ k) pos = (stepIndex (length cs) offset ^^ k) pos"
proof (induction k)
  case 0
  show ?case by simp
next
  case (Suc k)
  have len: "0 < length cs" using assms by auto
  have r: "0 \<le> (stepIndex (length cs) offset ^^ k) pos \<and>
           (stepIndex (length cs) offset ^^ k) pos < int (length cs)"
    using stepIndex_funpow_range [OF len assms(1,2)] .
  show ?case
    using Suc.IH r assms(3) by (simp add: advance_in_range)
qed

lemma stepIndex_funpow:
  "0 \<le> i \<Longrightarrow> i < int n \<Longrightarrow> (stepIndex n offset ^^ k) i = (i + int k * offset) mod int n"
proof (induction k)
  case 0
  then show ?case by simp
next
  case (Suc k)
  then have IH: "(stepIndex n offset ^^ k) i = (i + int k * offset) mod int n"
    by simp
  have "(stepIndex n offset ^^ Suc k) i = stepIndex n offset ((stepIndex n offset ^^ k) i)"
    by simp
  also have "\<dots> = ((i + int k * offset) mod int n + offset) mod int n"
    by (simp only: IH stepIndex_def)
  also have "\<dots> = (i + int k * offset + offset) mod int n"
    by (simp add: mod_add_left_eq)
  finally show ?case by (simp add: algebra_simps)
qed

lemma reach_target:
  assumes "0 \<le> pos" "pos < int n" "0 \<le> t" "t < int n" "offset = 1 \<or> offset = - 1"
  shows "\<exists>k. 1 \<le> k \<and> k \<le> n \<and> (pos + int k * offset) mod int n = t"
proof -
  define d where "d = (offset * (t - pos)) mod int n"
  have n: "0 < int n" using assms by auto
  have d: "0 \<le> d" "d < int n" using n by (simp_all add: d_def)
  have "(pos + d * offset) mod int n = (pos + (offset * (t - pos)) * offset) mod int n"
    unfolding d_def by (metis mod_add_right_eq mod_mult_left_eq)
  also have "(offset * (t - pos)) * offset = t - pos"
    using assms(5) by auto
  finally have eq: "(pos + d * offset) mod int n = t"
    using assms(3,4) by simp
  show ?thesis
  proof (cases "d = 0")
    case True
    with eq have "pos = t" using assms(1,2) by simp
    then have "(pos + int n * offset) mod int n = t" using assms(3,4) by simp
    moreover have "1 \<le> n" using n by simp
    ultimately show ?thesis by blast
  next
    case False
    with d have "1 \<le> nat d" "nat d \<le> n" "int (nat d) = d" by auto
    with eq show ?thesis by metis
  qed
qed


lemma findNext_in_range:
  assumes pos: "0 \<le> pos" "pos < int (length cs)"
    and off: "offset = 1 \<or> offset = - 1"
    and sel: "isSelectableChoice (index_at cs t)"
  shows "\<exists>k. 1 \<le> k \<and> k \<le> length cs \<and>
           findNext cs offset pos = Some ((stepIndex (length cs) offset ^^ k) pos) \<and>
           isSelectableChoice (index_at cs ((stepIndex (length cs) offset ^^ k) pos)) \<and>
           (\<forall>j. 1 \<le> j \<and> j < k \<longrightarrow>
                \<not> isSelectableChoice (index_at cs ((stepIndex (length cs) offset ^^ j) pos)))"
proof -
  let ?c = "\<lambda>j. (stepIndex (length cs) offset ^^ j) pos"
  let ?P = "\<lambda>j. 1 \<le> j \<and> isSelectableChoice (index_at cs (?c j))"
  have ne: "cs \<noteq> []" using pos by auto
  have t: "0 \<le> t" "t < int (length cs)"
    using isSelectable_index_at [OF sel] by simp_all
  obtain k0 where k0: "1 \<le> k0" "k0 \<le> length cs"
      "(pos + int k0 * offset) mod int (length cs) = t"
    using reach_target [OF pos t off] by blast
  have "?c k0 = t"
    using k0(3) by (simp add: stepIndex_funpow [OF pos])
  with sel k0(1) have P0: "?P k0" by simp
  define k where "k = (LEAST j. ?P j)"
  have Pk: "?P k" unfolding k_def using P0 by (rule LeastI)
  have kle: "k \<le> k0" unfolding k_def using P0 by (rule Least_le)
  have least: "\<not> ?P j" if "j < k" for j
    using that unfolding k_def by (rule not_less_Least)
  obtain k' where k': "k = Suc k'" using Pk by (cases k) auto
  have adv: "(advance cs offset ^^ j) pos = ?c j" for j
    by (rule advance_funpow [OF pos off])
  have "findNext cs offset pos = Some ((advance cs offset ^^ Suc k') pos)"
  proof (rule findNext_first [OF ne])
    show "isSelectableChoice (index_at cs ((advance cs offset ^^ Suc k') pos))"
      using Pk unfolding adv k' by simp
  next
    fix j
    assume "j < k'"
    then have "Suc j < k" by (simp add: k')
    from least [OF this]
    show "\<not> isSelectableChoice (index_at cs ((advance cs offset ^^ Suc j) pos))"
      unfolding adv by simp
  qed
  then have "findNext cs offset pos = Some (?c k)"
    unfolding adv k' .
  moreover have "k \<le> length cs" using kle k0(2) by simp
  ultimately show ?thesis using Pk least by blast
qed

lemma jsRem_bounds: "0 < b \<Longrightarrow> - b < jsRem a b \<and> jsRem a b < b"
proof -
  assume b: "0 < b"
  define r where "r = \<bar>a\<bar> mod \<bar>b\<bar>"
  have m: "0 \<le> r" "r < b" using b by (simp_all add: r_def)
  have "jsRem a b = r \<or> jsRem a b = 0 \<or> jsRem a b = - r"
    by (simp add: jsRem_def sgn_if r_def)
  then show ?thesis using m b by auto
qed

lemma findNext_total:
  assumes off: "offset = 1 \<or> offset = - 1"
    and sel: "isSelectableChoice (index_at cs t)"
  shows "\<exists>p. findNext cs offset pos = Some p \<and> isSelectableChoice (index_at cs p)"
proof -
  have t: "0 \<le> t" "t < int (length cs)"
    using isSelectable_index_at [OF sel] by simp_all
  then have ne: "cs \<noteq> []" and len: "0 < int (length cs)" by auto
  have inr: "\<exists>p. findNext cs offset q = Some p \<and> isSelectableChoice (index_at cs p)"
    if "0 \<le> q" "q < int (length cs)" for q
    using findNext_in_range [OF that off sel] by blast
  have one: "\<exists>p. findNext cs offset q = Some p \<and> isSelectableChoice (index_at cs p)"
    if "0 \<le> advance cs offset q" for q
  proof -
    have "advance cs offset q < int (length cs)"
      unfolding advance_def using jsRem_bounds [OF len] by blast
    from inr [OF that this] show ?thesis
      by (auto simp: findNext_unfold [OF ne, of offset q])
  qed
  show ?thesis
  proof (cases "0 \<le> advance cs offset pos")
    case True
    then show ?thesis by (rule one)
  next
    case False
    let ?q = "advance cs offset pos"
    have "- int (length cs) < ?q"
      unfolding advance_def using jsRem_bounds [OF len] by blast
    then have "0 \<le> ?q + offset + int (length cs)" using off by auto
    then have "0 \<le> advance cs offset ?q"
      using len by (simp add: advance_def [of cs offset ?q] jsRem_nonneg)
    from one [OF this] have "\<exists>p. findNext cs offset ?q = Some p \<and> isSelectableChoice (index_at cs p)" .
    moreover have "\<not> isSelectableChoice (index_at cs ?q)"
      using False isSelectable_index_at by blast
    ultimately show ?thesis
      by (simp add: findNext_unfold [OF ne, of offset pos])
  qed
qed

section \<open>The cursor invariant\<close>

lemma selectable_entry_index:
  "(\<exists>e \<in> set cs. isSelectableChoice (Some e)) \<longleftrightarrow> (\<exists>t. isSelectableChoice (index_at cs t))"
proof
  assume "\<exists>e \<in> set cs. isSelectableChoice (Some e)"
  then obtain i where "i < length cs" "isSelectableChoice (Some (cs ! i))"
    by (auto simp: in_set_conv_nth)
  then have "isSelectableChoice (index_at cs (int i))"
    by (simp add: index_at_def)
  then show "\<exists>t. isSelectableChoice (index_at cs t)" ..
next
  assume "\<exists>t. isSelectableChoice (index_at cs t)"
  then obtain t where t: "isSelectableChoice (index_at cs t)" ..
  with isSelectable_index_at [OF t] show "\<exists>e \<in> set cs. isSelectableChoice (Some e)"
    by (auto simp: index_at_def)
qed

lemma selectable_cases:
  "isSelectableChoice x \<longleftrightarrow> (\<exists>c. x = Some (IsChoice c) \<and> \<not> truthy_disabled (choice_disabled c))"
  by (cases x rule: isSelectableChoice.cases) simp_all

lemma falsy_disabled_cases:
  "\<not> truthy_disabled d \<longleftrightarrow> d = None \<or> d = Some (DisabledBool False) \<or> d = Some (DisabledText [])"
  by (cases d rule: truthy_disabled.cases) simp_all

lemma findNext_Some_selectable:
  assumes "isSelectableChoice (index_at cs t)" "offset = 1 \<or> offset = - 1"
    and "findNext cs offset pos = Some p"
  shows "isSelectableChoice (index_at cs p)"
  using findNext_total [OF assms(2,1), of pos] assms(3) by auto

lemma initialState_selectable:
  assumes "initialState cs = Inr s"
  shows "status s = Pending \<and> isSelectableChoice (index_at cs (cursorPosition s))"
proof -
  let ?i = "findIndex (\<lambda>e. isSelectableChoice (Some e)) cs"
  from assms have nn: "0 \<le> ?i" and s: "s = \<lparr>status = Pending, cursorPosition = ?i\<rparr>"
    by (auto simp: initialState_def Let_def split: if_splits)
  from findIndex_first [OF nn] have "nat ?i < length cs" "isSelectableChoice (Some (cs ! nat ?i))"
    by simp_all
  then have "isSelectableChoice (index_at cs ?i)"
    using nn by (simp add: index_at_def)
  then show ?thesis by (simp add: s)
qed

lemma onKeypress_selectable:
  assumes "isSelectableChoice (index_at cs (cursorPosition s))"
    and "onKeypress cs s k = Some (Inr (s', out))"
  shows "isSelectableChoice (index_at cs (cursorPosition s'))"
proof (cases k)
  case EnterKey
  with assms show ?thesis
    by (auto simp: onKeypress_def split: option.splits)
next
  case UpKey
  with assms(2) obtain p where "findNext cs (- 1) (cursorPosition s) = Some p"
      "s' = s\<lparr>cursorPosition := p\<rparr>"
    by (auto simp: onKeypress_def split: option.splits)
  with findNext_Some_selectable [OF assms(1), of "- 1"] show ?thesis by simp
next
  case DownKey
  with assms(2) obtain p where "findNext cs 1 (cursorPosition s) = Some p"
      "s' = s\<lparr>cursorPosition := p\<rparr>"
    by (auto simp: onKeypress_def split: option.splits)
  with findNext_Some_selectable [OF assms(1), of 1] show ?thesis by simp
next
  case (NumberKey n)
  with assms show ?thesis
    by (auto simp: onKeypress_def Let_def split: if_splits)
next
  case OtherKey
  with assms show ?thesis by (simp add: onKeypress_def)
qed

lemma onKeypress_returns:
  assumes "isSelectableChoice (index_at cs (cursorPosition s))"
  shows "\<exists>s' out. onKeypress cs s k = Some (Inr (s', out))"
proof (cases k)
  case EnterKey
  with assms show ?thesis
    by (auto simp: onKeypress_def selectable_cases)
next
  case UpKey
  with findNext_total [OF _ assms, of "- 1" "cursorPosition s"] show ?thesis
    by (auto simp: onKeypress_def)
next
  case DownKey
  with findNext_total [OF _ assms, of 1 "cursorPosition s"] show ?thesis
    by (auto simp: onKeypress_def)
next
  case (NumberKey n)
  then show ?thesis by (simp add: onKeypress_def Let_def)
next
  case OtherKey
  then show ?thesis by (simp add: onKeypress_def)
qed

lemma reachable_selectable:
  "reachable cs s \<Longrightarrow> isSelectableChoice (index_at cs (cursorPosition s))"
  by (induction rule: reachable.induct)
     (auto simp: initialState_selectable intro: onKeypress_selectable)

lemma initialState_first:
  assumes "initialState cs = Inr s"
  shows "\<forall>j. j < cursorPosition s \<longrightarrow> \<not> isSelectableChoice (index_at cs j)"
proof (intro allI impI)
  fix j
  assume j: "j < cursorPosition s"
  let ?i = "findIndex (\<lambda>e. isSelectableChoice (Some e)) cs"
  from assms have nn: "0 \<le> ?i" and s: "cursorPosition s = ?i"
    by (auto simp: initialState_def Let_def split: if_splits)
  show "\<not> isSelectableChoice (index_at cs j)"
  proof (cases "0 \<le> j")
    case True
    with j s have "nat j < nat ?i" by simp
    with findIndex_first [OF nn] have "\<not> isSelectableChoice (Some (cs ! nat j))" by blast
    then show ?thesis by (simp add: index_at_def)
  next
    case False
    then show ?thesis by (simp add: index_at_def)
  qed
qed

lemma runKeys_fixed:
  assumes "\<And>k. k \<in> set ks \<Longrightarrow> onKeypress cs s k = Some (Inr (s, []))"
  shows "runKeys cs s ks = Some (Inr (s, []))"
  using assms by (induction ks) simp_all

text \<open>The reachable states are those a run of keys from the initial state ends in, and the
  handler returns from every key in each of them.\<close>

lemma runKeys_reachable:
  "reachable cs s \<Longrightarrow> runKeys cs s ks = Some (Inr (s', out)) \<Longrightarrow> reachable cs s'"
proof (induction ks arbitrary: s out)
  case Nil
  then show ?case by simp
next
  case (Cons k ks)
  from Cons.prems(2) obtain s1 out1 out2
    where k: "onKeypress cs s k = Some (Inr (s1, out1))"
      and ks: "runKeys cs s1 ks = Some (Inr (s', out2))"
    by (auto split: option.splits sum.splits)
  from Cons.prems(1) k have "reachable cs s1" by (rule reachable_step)
  then show ?case using ks by (rule Cons.IH)
qed

lemma runKeys_snoc:
  "runKeys cs s ks = Some (Inr (s1, out1)) \<Longrightarrow> onKeypress cs s1 k = Some (Inr (s2, out2)) \<Longrightarrow>
   runKeys cs s (ks @ [k]) = Some (Inr (s2, out1 @ out2))"
proof (induction ks arbitrary: s out1)
  case Nil
  then show ?case by simp
next
  case (Cons a ks)
  from Cons.prems(1) obtain sa outa outb
    where a: "onKeypress cs s a = Some (Inr (sa, outa))"
      and ks: "runKeys cs sa ks = Some (Inr (s1, outb))"
      and out: "out1 = outa @ outb"
    by (auto split: option.splits sum.splits)
  from Cons.IH [OF ks Cons.prems(2)] a out show ?case by simp
qed

lemma reachable_iff_runKeys:
  "reachable cs s \<longleftrightarrow>
     (\<exists>s0 ks out. initialState cs = Inr s0 \<and> runKeys cs s0 ks = Some (Inr (s, out)))"
proof
  assume "reachable cs s"
  then show "\<exists>s0 ks out. initialState cs = Inr s0 \<and> runKeys cs s0 ks = Some (Inr (s, out))"
  proof (induction rule: reachable.induct)
    case (reachable_init s)
    then have "initialState cs = Inr s \<and> runKeys cs s [] = Some (Inr (s, []))" by simp
    then show ?case by blast
  next
    case (reachable_step s k s' out)
    then obtain s0 ks out0
      where "initialState cs = Inr s0" "runKeys cs s0 ks = Some (Inr (s, out0))"
      by blast
    with runKeys_snoc [OF this(2) reachable_step.hyps(2)] show ?case by blast
  qed
next
  assume "\<exists>s0 ks out. initialState cs = Inr s0 \<and> runKeys cs s0 ks = Some (Inr (s, out))"
  then obtain s0 ks out
    where i: "initialState cs = Inr s0" and r: "runKeys cs s0 ks = Some (Inr (s, out))"
    by blast
  from i have "reachable cs s0" by (rule reachable_init)
  then show "reachable cs s" using r by (rule runKeys_reachable)
qed

lemma reachable_handler_returns:
  "reachable cs s \<Longrightarrow> \<exists>s' out. onKeypress cs s k = Some (Inr (s', out))"
  by (rule onKeypress_returns) (rule reachable_selectable)

section \<open>Properties of the renderer\<close>

lemma render_defined:
  assumes "index_at (choices config) (cursorPosition s) = Some choice"
  shows "\<exists>frame. render env config s first = Inr frame"
  using assms by (simp add: render_def Let_def)

lemma renderAll_later:
  "renderAll env config \<lparr>firstRender = False\<rparr> ss = map (\<lambda>s. render env config s False) ss"
  by (induction ss) (simp_all add: view_def)

lemma renderAll_first:
  "renderAll env config \<lparr>firstRender = True\<rparr> (s # ss)
     = render env config s True # map (\<lambda>s. render env config s False) ss"
  by (simp add: view_def renderAll_later)

text \<open>The frame in full: prefix, message in bold, the hint under the flag only, and a rest
  that does not depend on the flag.\<close>

lemma render_frame:
  assumes "index_at (choices config) (cursorPosition s) = Some choice"
  shows "render env config s first =
     Inr (usePrefix env @ '' '' @ chalk_bold env (message config) @
          (if first then chalk_dim env hint else []) @
          (if status s = Done then '' '' @ chalk_cyan env (cursor_label choice)
           else newline @
                paginate env
                  (join newline
                     (map (renderChoice env (cursorPosition s)) (enumerate 0 (choices config))))
                  (cursorPosition s) (pageSize config) @
                cursor_description choice @ ansi_cursorHide env))"
  using assms by (simp add: render_def renderMessage_def Let_def)

lemma render_undefined:
  "index_at (choices config) (cursorPosition s) = None \<Longrightarrow> render env config s first = Inl TypeError"
  by (simp add: render_def)

section \<open>The examples\<close>

lemma findNext_example1_down: "findNext example1 1 0 = Some 3"
  by (simp add: findNext_unfold advance_def jsRem_def index_at_def example1_def mkChoice_def)

lemma findNext_example1_down3: "findNext example1 1 3 = Some 0"
  by (simp add: findNext_unfold advance_def jsRem_def index_at_def example1_def mkChoice_def)

lemma findNext_example1_up: "findNext example1 (- 1) 0 = Some 3"
  by (simp add: findNext_unfold advance_def jsRem_def index_at_def example1_def mkChoice_def)

lemma initialState_example1:
  "initialState example1 = Inr \<lparr>status = Pending, cursorPosition = 0\<rparr>"
  by (simp add: initialState_def example1_def mkChoice_def)

lemma reachable_example1: "reachable example1 \<lparr>status = Pending, cursorPosition = 3\<rparr>"
proof -
  have "reachable example1 \<lparr>status = Pending, cursorPosition = 0\<rparr>"
    using initialState_example1 by (rule reachable_init)
  moreover have "onKeypress example1 \<lparr>status = Pending, cursorPosition = 0\<rparr> DownKey
                   = Some (Inr (\<lparr>status = Pending, cursorPosition = 3\<rparr>, []))"
    by (simp add: onKeypress_def findNext_example1_down)
  ultimately show ?thesis by (rule reachable_step)
qed

lemma example1_has_selectable: "\<exists>e \<in> set example1. isSelectableChoice (Some e)"
  by (simp add: example1_def mkChoice_def)

lemma example2_only: "isSelectableChoice (index_at example2 i) \<longleftrightarrow> i = 1"
proof
  assume a: "isSelectableChoice (index_at example2 i)"
  from isSelectable_index_at [OF a] have "i = 0 \<or> i = 1"
    by (auto simp: example2_def)
  with a show "i = 1" by (auto simp: example2_def mkChoice_def index_at_def)
next
  assume "i = 1"
  then show "isSelectableChoice (index_at example2 i)"
    by (simp add: example2_def mkChoice_def index_at_def)
qed

lemma pending_frame_example1:
  "render plainEnv (exampleConfig example1) \<lparr>status = Pending, cursorPosition = 0\<rparr> True
     = Inr (''? Pick (Use arrow keys)'' @ newline @ ''> Alpha'' @ newline @ '' ---'' @ newline @
            ''- b (disabled)'' @ newline @ ''  Gamma'' @ [CHR 0x1B] @ ''[?25l'')"
  by (simp add: render_def renderMessage_def hint_def plainEnv_def exampleConfig_def example1_def
      mkChoice_def index_at_def name_or_value_def enumerate_eq_zip upt_rec)

lemma done_frame_example1:
  "render plainEnv (exampleConfig example1) \<lparr>status = Done, cursorPosition = 3\<rparr> False
     = Inr ''? Pick Gamma''"
  by (simp add: render_def renderMessage_def plainEnv_def exampleConfig_def example1_def
      mkChoice_def index_at_def name_or_value_def)

lemma later_frame_example1:
  "render plainEnv (exampleConfig example1) \<lparr>status = Pending, cursorPosition = 3\<rparr> False
     = Inr (''? Pick'' @ newline @ ''  Alpha'' @ newline @ '' ---'' @ newline @
            ''- b (disabled)'' @ newline @ ''> Gamma'' @ [CHR 0x1B] @ ''[?25l'')"
  by (simp add: render_def renderMessage_def hint_def plainEnv_def exampleConfig_def example1_def
      mkChoice_def index_at_def name_or_value_def enumerate_eq_zip upt_rec)

section \<open>The claims\<close>

text \<open>
  Claim C1, amended. In every reachable state of the prompt (after initialisation and after
  any sequence of directional steps, numeric jumps and confirmations, so in particular in
  every reachable state with status \<open>Pending\<close>) \<open>cursorPosition\<close> indexes an entry of
  \<open>choices\<close> that is a Choice, not a Separator, and whose \<open>disabled\<close> field is falsy:
  absent, \<open>false\<close> or the empty string.
\<close>

theorem C1_cursor_on_selectable_choice:
  assumes "reachable cs s"
  shows "\<exists>c. index_at cs (cursorPosition s) = Some (IsChoice c) \<and>
             (choice_disabled c = None \<or> choice_disabled c = Some (DisabledBool False) \<or>
              choice_disabled c = Some (DisabledText []))"
  using reachable_selectable [OF assms]
  by (simp add: selectable_cases falsy_disabled_cases)

text \<open>The state reached in Example 1 by one step down from the initial state.\<close>

theorem C1_cursor_on_selectable_choice_witness:
  "reachable example1 \<lparr>status = Pending, cursorPosition = 3\<rparr> \<and>
   index_at example1 (cursorPosition \<lparr>status = Pending, cursorPosition = 3\<rparr>)
     = Some (mkChoice ''c'' (Some ''Gamma'') None)"
  using reachable_example1 C1_cursor_on_selectable_choice [OF reachable_example1]
  by (simp add: index_at_def example1_def)

text \<open>
  As stated, with the field absent or \<open>false\<close> only, C1 fails: a choice whose
  \<open>disabled\<close> is the empty string is selectable, and the initial cursor rests on it.
\<close>

theorem C1_empty_disabled_text_counterexample:
  "reachable [mkChoice ''a'' None (Some (DisabledText ''''))] \<lparr>status = Pending, cursorPosition = 0\<rparr> \<and>
   index_at [mkChoice ''a'' None (Some (DisabledText ''''))]
       (cursorPosition \<lparr>status = Pending, cursorPosition = 0\<rparr>)
     = Some (IsChoice \<lparr>choice_value = ''a'', choice_name = None, choice_description = None,
                       choice_disabled = Some (DisabledText '''')\<rparr>) \<and>
   Some (DisabledText '''') \<noteq> None \<and>
   Some (DisabledText '''') \<noteq> Some (DisabledBool False)"
proof -
  have "initialState [mkChoice ''a'' None (Some (DisabledText ''''))]
          = Inr \<lparr>status = Pending, cursorPosition = 0\<rparr>"
    by (simp add: initialState_def mkChoice_def)
  then have "reachable [mkChoice ''a'' None (Some (DisabledText ''''))]
               \<lparr>status = Pending, cursorPosition = 0\<rparr>"
    by (rule reachable_init)
  then show ?thesis by (simp add: index_at_def mkChoice_def)
qed

text \<open>
  Claim C2. When the confirm key arrives in a reachable state with status \<open>Pending\<close>, the
  handler calls \<^verbatim>\<open>done\<close> once, with exactly the \<open>value\<close> field of the Choice at
  \<open>cursorPosition\<close>: not its name, not the index, not a styled string.
\<close>

theorem C2_confirm_resolves_value:
  assumes "reachable cs s" "status s = Pending"
  shows "\<exists>c. index_at cs (cursorPosition s) = Some (IsChoice c) \<and>
             onKeypress cs s EnterKey = Some (Inr (s\<lparr>status := Done\<rparr>, [Some (choice_value c)]))"
  using reachable_selectable [OF assms(1)]
  by (auto simp: selectable_cases onKeypress_def)

theorem C2_confirm_resolves_value_witness:
  "reachable example1 \<lparr>status = Pending, cursorPosition = 3\<rparr> \<and>
   status \<lparr>status = Pending, cursorPosition = 3\<rparr> = Pending \<and>
   onKeypress example1 \<lparr>status = Pending, cursorPosition = 3\<rparr> EnterKey
     = Some (Inr (\<lparr>status = Done, cursorPosition = 3\<rparr>, [Some ''c'']))"
  using reachable_example1 C2_confirm_resolves_value [OF reachable_example1]
  by (simp add: index_at_def example1_def mkChoice_def)

text \<open>
  Claim C3. Let the list hold at least one selectable entry and let the cursor index the
  list, as it does in every state of a prompt. A directional step (up: offset \<open>-1\<close>, down:
  offset \<open>+1\<close>) returns and moves the cursor to the first index, among those reached by
  adding the offset modulo the list length once, twice, and so on, that the selectability
  predicate accepts; at most as many additions as the list is long are needed, and nothing
  else changes. If the cursor's entry is the only selectable one, every sequence of
  directional steps leaves the state as it is. The handler does not read the status, so
  this holds in a \<open>Pending\<close> state in particular.
\<close>

theorem C3_directional_step:
  assumes some: "\<exists>e \<in> set cs. isSelectableChoice (Some e)"
    and range: "0 \<le> cursorPosition s" "cursorPosition s < int (length cs)"
    and key: "(k, offset) = (UpKey, - 1) \<or> (k, offset) = (DownKey, 1)"
  shows "(\<exists>n. 1 \<le> n \<and> n \<le> length cs \<and>
            onKeypress cs s k =
              Some (Inr (s\<lparr>cursorPosition := (stepIndex (length cs) offset ^^ n) (cursorPosition s)\<rparr>, [])) \<and>
            isSelectableChoice (index_at cs ((stepIndex (length cs) offset ^^ n) (cursorPosition s))) \<and>
            (\<forall>j. 1 \<le> j \<and> j < n \<longrightarrow>
               \<not> isSelectableChoice (index_at cs ((stepIndex (length cs) offset ^^ j) (cursorPosition s))))) \<and>
         ((\<forall>i. isSelectableChoice (index_at cs i) \<longrightarrow> i = cursorPosition s) \<longrightarrow>
            (\<forall>ks. set ks \<subseteq> {UpKey, DownKey} \<longrightarrow> runKeys cs s ks = Some (Inr (s, []))))"
proof
  from some obtain t where t: "isSelectableChoice (index_at cs t)"
    unfolding selectable_entry_index ..
  have off: "offset = 1 \<or> offset = - 1" using key by auto
  have handler: "onKeypress cs s k =
      (case findNext cs offset (cursorPosition s) of
         None \<Rightarrow> None
       | Some p \<Rightarrow> Some (Inr (s\<lparr>cursorPosition := p\<rparr>, [])))"
    using key by (auto simp: onKeypress_def)
  from findNext_in_range [OF range off t]
  show "\<exists>n. 1 \<le> n \<and> n \<le> length cs \<and>
            onKeypress cs s k =
              Some (Inr (s\<lparr>cursorPosition := (stepIndex (length cs) offset ^^ n) (cursorPosition s)\<rparr>, [])) \<and>
            isSelectableChoice (index_at cs ((stepIndex (length cs) offset ^^ n) (cursorPosition s))) \<and>
            (\<forall>j. 1 \<le> j \<and> j < n \<longrightarrow>
               \<not> isSelectableChoice (index_at cs ((stepIndex (length cs) offset ^^ j) (cursorPosition s))))"
    unfolding handler by force
  show "(\<forall>i. isSelectableChoice (index_at cs i) \<longrightarrow> i = cursorPosition s) \<longrightarrow>
          (\<forall>ks. set ks \<subseteq> {UpKey, DownKey} \<longrightarrow> runKeys cs s ks = Some (Inr (s, [])))"
  proof (intro impI allI)
    fix ks
    assume only: "\<forall>i. isSelectableChoice (index_at cs i) \<longrightarrow> i = cursorPosition s"
      and ks: "set ks \<subseteq> {UpKey, DownKey}"
    have stay: "findNext cs d (cursorPosition s) = Some (cursorPosition s)"
      if "d = 1 \<or> d = - 1" for d
      using findNext_total [OF that t, of "cursorPosition s"] only by auto
    show "runKeys cs s ks = Some (Inr (s, []))"
    proof (rule runKeys_fixed)
      fix k'
      assume "k' \<in> set ks"
      with ks have "k' = UpKey \<or> k' = DownKey" by auto
      then show "onKeypress cs s k' = Some (Inr (s, []))"
        using stay [of 1] stay [of "- 1"] by (auto simp: onKeypress_def)
    qed
  qed
qed

text \<open>Example 1: down from the first choice skips the separator and the disabled choice and
  lands on the last one, and down again wraps to the first. Example 2: the one selectable
  choice keeps the cursor.\<close>

theorem C3_directional_step_witness:
  "(\<exists>e \<in> set example1. isSelectableChoice (Some e)) \<and>
   onKeypress example1 \<lparr>status = Pending, cursorPosition = 0\<rparr> DownKey
     = Some (Inr (\<lparr>status = Pending, cursorPosition = 3\<rparr>, [])) \<and>
   (stepIndex (length example1) 1 ^^ 3) 0 = 3 \<and>
   onKeypress example1 \<lparr>status = Pending, cursorPosition = 3\<rparr> DownKey
     = Some (Inr (\<lparr>status = Pending, cursorPosition = 0\<rparr>, [])) \<and>
   (\<exists>e \<in> set example2. isSelectableChoice (Some e)) \<and>
   isSelectableChoice (index_at example2 1) \<and> \<not> isSelectableChoice (index_at example2 0) \<and>
   runKeys example2 \<lparr>status = Pending, cursorPosition = 1\<rparr> [DownKey, UpKey, UpKey]
     = Some (Inr (\<lparr>status = Pending, cursorPosition = 1\<rparr>, []))"
proof -
  have e2: "\<exists>e \<in> set example2. isSelectableChoice (Some e)"
    by (simp add: example2_def mkChoice_def)
  have only: "\<forall>i. isSelectableChoice (index_at example2 i) \<longrightarrow>
                  i = cursorPosition \<lparr>status = Pending, cursorPosition = 1\<rparr>"
    by (simp add: example2_only)
  have r2: "0 \<le> cursorPosition \<lparr>status = Pending, cursorPosition = 1\<rparr>"
    "cursorPosition \<lparr>status = Pending, cursorPosition = 1\<rparr> < int (length example2)"
    by (simp_all add: example2_def)
  have keys: "set [DownKey, UpKey, UpKey] \<subseteq> {UpKey, DownKey}" by simp
  have "\<forall>ks. set ks \<subseteq> {UpKey, DownKey} \<longrightarrow>
          runKeys example2 \<lparr>status = Pending, cursorPosition = 1\<rparr> ks
            = Some (Inr (\<lparr>status = Pending, cursorPosition = 1\<rparr>, []))"
    using C3_directional_step [OF e2 r2, of DownKey 1] only by blast
  from this [rule_format, OF keys]
  have "runKeys example2 \<lparr>status = Pending, cursorPosition = 1\<rparr> [DownKey, UpKey, UpKey]
          = Some (Inr (\<lparr>status = Pending, cursorPosition = 1\<rparr>, []))" .
  moreover have "onKeypress example1 \<lparr>status = Pending, cursorPosition = 0\<rparr> DownKey
     = Some (Inr (\<lparr>status = Pending, cursorPosition = 3\<rparr>, []))"
    by (simp add: onKeypress_def findNext_example1_down)
  moreover have "onKeypress example1 \<lparr>status = Pending, cursorPosition = 3\<rparr> DownKey
     = Some (Inr (\<lparr>status = Pending, cursorPosition = 0\<rparr>, []))"
    by (simp add: onKeypress_def findNext_example1_down3)
  moreover have "(stepIndex (length example1) 1 ^^ 3) 0 = 3"
    by (simp add: stepIndex_def example1_def numeral_3_eq_3)
  ultimately show ?thesis using example1_has_selectable e2 by (simp add: example2_only)
qed

text \<open>
  Claim C4. For every list with at least one selectable entry, the search of the
  directional step returns, from every starting position and in both directions, and the
  index it returns is accepted by the selectability predicate.
\<close>

theorem C4_directional_search_terminates:
  assumes "\<exists>e \<in> set cs. isSelectableChoice (Some e)"
    and "offset = 1 \<or> offset = - 1"
  shows "\<exists>p. findNext cs offset pos = Some p \<and> isSelectableChoice (index_at cs p)"
proof -
  from assms(1) obtain t where "isSelectableChoice (index_at cs t)"
    unfolding selectable_entry_index ..
  with assms(2) show ?thesis by (rule findNext_total)
qed

text \<open>Example 1, upwards from the first choice.\<close>

theorem C4_directional_search_terminates_witness:
  "(\<exists>e \<in> set example1. isSelectableChoice (Some e)) \<and>
   findNext example1 (- 1) 0 = Some 3 \<and> isSelectableChoice (index_at example1 3)"
  using example1_has_selectable
    C4_directional_search_terminates [OF example1_has_selectable, of "- 1" 0]
  by (simp add: findNext_example1_up)

text \<open>
  Claim C5. In every state and for every digit \<open>n\<close>, the numeric jump sets
  \<open>cursorPosition\<close> to exactly \<open>n - 1\<close> when the entry there exists and is selectable; when
  that entry is absent, a Separator, or a disabled Choice, the handler returns the state
  unchanged, calls nothing and throws nothing.
\<close>

theorem C5_numeric_jump:
  "(isSelectableChoice (index_at cs (n - 1)) \<longrightarrow>
      onKeypress cs s (NumberKey n) = Some (Inr (s\<lparr>cursorPosition := n - 1\<rparr>, []))) \<and>
   (index_at cs (n - 1) = None \<or>
    (\<exists>l. index_at cs (n - 1) = Some (IsSeparator l)) \<or>
    (\<exists>c. index_at cs (n - 1) = Some (IsChoice c) \<and> truthy_disabled (choice_disabled c)) \<longrightarrow>
      onKeypress cs s (NumberKey n) = Some (Inr (s, [])))"
  by (auto simp: onKeypress_def Let_def)

text \<open>Example 3: digit 2 moves the cursor to the second choice, digit 9 changes nothing.\<close>

theorem C5_numeric_jump_witness:
  "isSelectableChoice (index_at example3 (2 - 1)) \<and>
   onKeypress example3 \<lparr>status = Pending, cursorPosition = 0\<rparr> (NumberKey 2)
     = Some (Inr (\<lparr>status = Pending, cursorPosition = 1\<rparr>, [])) \<and>
   index_at example3 (9 - 1) = None \<and>
   onKeypress example3 \<lparr>status = Pending, cursorPosition = 0\<rparr> (NumberKey 9)
     = Some (Inr (\<lparr>status = Pending, cursorPosition = 0\<rparr>, []))"
  using C5_numeric_jump [of example3 2 "\<lparr>status = Pending, cursorPosition = 0\<rparr>"]
    C5_numeric_jump [of example3 9 "\<lparr>status = Pending, cursorPosition = 0\<rparr>"]
  by (simp add: example3_def mkChoice_def index_at_def)

text \<open>
  Claim C6. Construction fails if and only if no entry of \<open>choices\<close> is selectable, the
  empty list included; the failure is the configuration error, and the first run of the
  view then yields the error and no frame. When a selectable entry exists, the initial
  state is \<open>Pending\<close> with the cursor on the first selectable entry in list order, and the
  first run of the view yields a frame.
\<close>

theorem C6_construction:
  "((\<exists>e. initialState (choices config) = Inl e) \<longleftrightarrow>
      (\<forall>x \<in> set (choices config). \<not> isSelectableChoice (Some x))) \<and>
   ((\<forall>x \<in> set (choices config). \<not> isSelectableChoice (Some x)) \<longrightarrow>
      initialState (choices config) = Inl NoSelectableChoices \<and>
      start env config = Inl NoSelectableChoices) \<and>
   (choices config = [] \<longrightarrow> start env config = Inl NoSelectableChoices) \<and>
   ((\<exists>x \<in> set (choices config). isSelectableChoice (Some x)) \<longrightarrow>
      (\<exists>i frame.
         initialState (choices config) = Inr \<lparr>status = Pending, cursorPosition = i\<rparr> \<and>
         isSelectableChoice (index_at (choices config) i) \<and>
         (\<forall>j. j < i \<longrightarrow> \<not> isSelectableChoice (index_at (choices config) j)) \<and>
         start env config = Inr (\<lparr>status = Pending, cursorPosition = i\<rparr>, frame)))"
proof (intro conjI impI)
  let ?cs = "choices config"
  show "(\<exists>e. initialState ?cs = Inl e) \<longleftrightarrow> (\<forall>x \<in> set ?cs. \<not> isSelectableChoice (Some x))"
    using initialState_cases [of ?cs] initialState_fails_iff [of ?cs] by auto
  show "initialState ?cs = Inl NoSelectableChoices"
    if "\<forall>x \<in> set ?cs. \<not> isSelectableChoice (Some x)"
    using that by (simp add: initialState_fails_iff)
  show "start env config = Inl NoSelectableChoices"
    if "\<forall>x \<in> set ?cs. \<not> isSelectableChoice (Some x)"
    using that by (simp add: start_def initialState_fails_iff [symmetric])
  show "start env config = Inl NoSelectableChoices" if "?cs = []"
    using that by (simp add: start_def initialState_def)
  show "\<exists>i frame.
         initialState ?cs = Inr \<lparr>status = Pending, cursorPosition = i\<rparr> \<and>
         isSelectableChoice (index_at ?cs i) \<and>
         (\<forall>j. j < i \<longrightarrow> \<not> isSelectableChoice (index_at ?cs j)) \<and>
         start env config = Inr (\<lparr>status = Pending, cursorPosition = i\<rparr>, frame)"
    if "\<exists>x \<in> set ?cs. isSelectableChoice (Some x)"
  proof -
    from that initialState_cases [of ?cs] initialState_fails_iff [of ?cs]
    obtain i where i: "initialState ?cs = Inr \<lparr>status = Pending, cursorPosition = i\<rparr>"
      by auto
    from initialState_selectable [OF i] have sel: "isSelectableChoice (index_at ?cs i)"
      by simp
    then obtain choice where "index_at ?cs i = Some choice"
      by (auto simp: selectable_cases)
    then have "\<exists>frame. render env config \<lparr>status = Pending, cursorPosition = i\<rparr> True = Inr frame"
      by (intro render_defined) simp
    then obtain frame
      where "start env config = Inr (\<lparr>status = Pending, cursorPosition = i\<rparr>, frame)"
      by (auto simp: start_def i)
    with i sel initialState_first [OF i] show ?thesis by auto
  qed
qed

text \<open>Example 4, the empty list, and Example 2, where the initial cursor skips the disabled
  choice.\<close>

theorem C6_construction_witness:
  "choices (exampleConfig []) = [] \<and>
   start plainEnv (exampleConfig []) = Inl NoSelectableChoices \<and>
   (\<exists>x \<in> set (choices (exampleConfig example2)). isSelectableChoice (Some x)) \<and>
   initialState (choices (exampleConfig example2)) = Inr \<lparr>status = Pending, cursorPosition = 1\<rparr>"
  using C6_construction [of "exampleConfig []" plainEnv]
    C6_construction [of "exampleConfig example2" plainEnv]
  by (simp add: exampleConfig_def example2_def mkChoice_def initialState_def)

text \<open>
  Claim C7, amended. The handler does not read the status. In a state with status \<open>Done\<close>
  every event the handler returns from leaves the status \<open>Done\<close>. A confirmation leaves the
  state as it is and calls \<^verbatim>\<open>done\<close> again with the value of the entry at
  \<open>cursorPosition\<close>; any other key and a numeric jump to an entry that is not selectable
  change nothing; a directional step and a numeric jump to a selectable entry move the
  cursor exactly as they do in the \<open>Pending\<close> state with the same cursor.
\<close>

theorem C7_done_state_events:
  assumes "status s = Done" and "onKeypress cs s k = Some (Inr (s', out))"
  shows "status s' = Done \<and>
         (k = EnterKey \<longrightarrow>
            s' = s \<and> (\<exists>choice. index_at cs (cursorPosition s) = Some choice \<and>
                               out = [entry_value choice])) \<and>
         (k = OtherKey \<longrightarrow> s' = s \<and> out = []) \<and>
         ((\<exists>n. k = NumberKey n \<and> \<not> isSelectableChoice (index_at cs (n - 1))) \<longrightarrow>
            s' = s \<and> out = []) \<and>
         (\<exists>s''. onKeypress cs (s\<lparr>status := Pending\<rparr>) k = Some (Inr (s'', out)) \<and>
                cursorPosition s'' = cursorPosition s')"
  using assms
  by (cases k) (auto simp: onKeypress_def Let_def split: option.splits if_splits)

text \<open>Example 3 after a confirmation on the first choice: the down key still moves the
  cursor.\<close>

theorem C7_done_state_events_witness:
  "status \<lparr>status = Done, cursorPosition = 0\<rparr> = Done \<and>
   onKeypress example3 \<lparr>status = Done, cursorPosition = 0\<rparr> DownKey
     = Some (Inr (\<lparr>status = Done, cursorPosition = 1\<rparr>, [])) \<and>
   status \<lparr>status = Done, cursorPosition = 1\<rparr> = Done"
proof -
  have h: "onKeypress example3 \<lparr>status = Done, cursorPosition = 0\<rparr> DownKey
     = Some (Inr (\<lparr>status = Done, cursorPosition = 1\<rparr>, []))"
    by (simp add: onKeypress_def findNext_unfold advance_def jsRem_def index_at_def
        example3_def mkChoice_def)
  from C7_done_state_events [OF _ h] h show ?thesis by simp
qed

text \<open>
  As stated, C7 fails: in the state with status \<open>Done\<close> that a confirmation on the first of
  two choices leaves, the down key and the digit 2 move the cursor, and the confirm key
  calls \<^verbatim>\<open>done\<close> a second time.
\<close>

theorem C7_done_state_counterexample:
  "initialState [mkChoice ''a'' None None, mkChoice ''b'' None None]
     = Inr \<lparr>status = Pending, cursorPosition = 0\<rparr> \<and>
   onKeypress [mkChoice ''a'' None None, mkChoice ''b'' None None]
       \<lparr>status = Pending, cursorPosition = 0\<rparr> EnterKey
     = Some (Inr (\<lparr>status = Done, cursorPosition = 0\<rparr>, [Some ''a''])) \<and>
   status \<lparr>status = Done, cursorPosition = 0\<rparr> = Done \<and>
   onKeypress [mkChoice ''a'' None None, mkChoice ''b'' None None]
       \<lparr>status = Done, cursorPosition = 0\<rparr> DownKey
     = Some (Inr (\<lparr>status = Done, cursorPosition = 1\<rparr>, [])) \<and>
   onKeypress [mkChoice ''a'' None None, mkChoice ''b'' None None]
       \<lparr>status = Done, cursorPosition = 0\<rparr> (NumberKey 2)
     = Some (Inr (\<lparr>status = Done, cursorPosition = 1\<rparr>, [])) \<and>
   onKeypress [mkChoice ''a'' None None, mkChoice ''b'' None None]
       \<lparr>status = Done, cursorPosition = 0\<rparr> EnterKey
     = Some (Inr (\<lparr>status = Done, cursorPosition = 0\<rparr>, [Some ''a'']))"
  by (simp add: initialState_def onKeypress_def findNext_unfold advance_def jsRem_def
      index_at_def mkChoice_def)

text \<open>
  Claim C8, amended. In a state with status \<open>Done\<close> the frame is a single collapsed line:
  the prefix, the header and the display label of the Choice at \<open>cursorPosition\<close>,
  separated by single spaces, and nothing else; it does not depend on the paginator nor on
  the cursor-hiding sequence. The display label is the name when the name is present and
  not empty, and the value otherwise. In the state a confirmation yields from a reachable
  state, the Choice at \<open>cursorPosition\<close> is the confirmed one, whose value \<^verbatim>\<open>done\<close>
  received. Every frame rendered in a state with status \<open>Pending\<close> ends with the
  cursor-hiding sequence.
\<close>

theorem C8_done_and_pending_frames:
  "(status s = Done \<and> index_at (choices config) (cursorPosition s) = Some (IsChoice c) \<longrightarrow>
      render env config s first =
        Inr (usePrefix env @ '' '' @ renderMessage env config first @ '' '' @
             chalk_cyan env (name_or_value c)) \<and>
      render (env\<lparr>paginate := p, ansi_cursorHide := h\<rparr>) config s first = render env config s first \<and>
      (\<forall>n. choice_name c = Some n \<and> n \<noteq> [] \<longrightarrow> name_or_value c = n) \<and>
      (choice_name c = None \<or> choice_name c = Some [] \<longrightarrow> name_or_value c = choice_value c)) \<and>
   (reachable (choices config) s \<longrightarrow>
      (\<exists>confirmed.
         index_at (choices config) (cursorPosition s) = Some (IsChoice confirmed) \<and>
         onKeypress (choices config) s EnterKey =
           Some (Inr (s\<lparr>status := Done\<rparr>, [Some (choice_value confirmed)])) \<and>
         render env config (s\<lparr>status := Done\<rparr>) first =
           Inr (usePrefix env @ '' '' @ renderMessage env config first @ '' '' @
                chalk_cyan env (name_or_value confirmed)))) \<and>
   (status s = Pending \<and> render env config s first = Inr frame \<longrightarrow>
      (\<exists>body. frame = body @ ansi_cursorHide env))"
proof (intro conjI impI allI)
  assume a: "status s = Done \<and> index_at (choices config) (cursorPosition s) = Some (IsChoice c)"
  then show "render env config s first =
        Inr (usePrefix env @ '' '' @ renderMessage env config first @ '' '' @
             chalk_cyan env (name_or_value c))"
    by (simp add: render_def)
  from a show "render (env\<lparr>paginate := p, ansi_cursorHide := h\<rparr>) config s first
                 = render env config s first"
    by (simp add: render_def renderMessage_def)
next
  fix n
  assume "choice_name c = Some n \<and> n \<noteq> []"
  then show "name_or_value c = n" by (simp add: name_or_value_def)
next
  assume "choice_name c = None \<or> choice_name c = Some []"
  then show "name_or_value c = choice_value c" by (auto simp: name_or_value_def)
next
  assume "reachable (choices config) s"
  then have "isSelectableChoice (index_at (choices config) (cursorPosition s))"
    by (rule reachable_selectable)
  then obtain confirmed
    where c: "index_at (choices config) (cursorPosition s) = Some (IsChoice confirmed)"
    by (auto simp: selectable_cases)
  then have "onKeypress (choices config) s EnterKey =
               Some (Inr (s\<lparr>status := Done\<rparr>, [Some (choice_value confirmed)]))"
    "render env config (s\<lparr>status := Done\<rparr>) first =
       Inr (usePrefix env @ '' '' @ renderMessage env config first @ '' '' @
            chalk_cyan env (name_or_value confirmed))"
    by (simp_all add: onKeypress_def render_def)
  with c show "\<exists>confirmed.
         index_at (choices config) (cursorPosition s) = Some (IsChoice confirmed) \<and>
         onKeypress (choices config) s EnterKey =
           Some (Inr (s\<lparr>status := Done\<rparr>, [Some (choice_value confirmed)])) \<and>
         render env config (s\<lparr>status := Done\<rparr>) first =
           Inr (usePrefix env @ '' '' @ renderMessage env config first @ '' '' @
                chalk_cyan env (name_or_value confirmed))"
    by blast
next
  assume "status s = Pending \<and> render env config s first = Inr frame"
  then show "\<exists>body. frame = body @ ansi_cursorHide env"
    by (auto simp: render_def Let_def split: option.splits
        intro: exI [of _ "usePrefix env @ '' '' @ renderMessage env config first @ newline @ _ @ _"])
qed

text \<open>Example 5: confirming the choice of value \<open>c\<close> and name \<open>Gamma\<close> in Example 1, and the
  frame that follows; and the first frame of Example 1.\<close>

theorem C8_done_and_pending_frames_witness:
  "reachable (choices (exampleConfig example1)) \<lparr>status = Pending, cursorPosition = 3\<rparr> \<and>
   onKeypress (choices (exampleConfig example1)) \<lparr>status = Pending, cursorPosition = 3\<rparr> EnterKey
     = Some (Inr (\<lparr>status = Done, cursorPosition = 3\<rparr>, [Some ''c''])) \<and>
   status \<lparr>status = Done, cursorPosition = 3\<rparr> = Done \<and>
   index_at (choices (exampleConfig example1)) (cursorPosition \<lparr>status = Done, cursorPosition = 3\<rparr>)
     = Some (mkChoice ''c'' (Some ''Gamma'') None) \<and>
   render plainEnv (exampleConfig example1) \<lparr>status = Done, cursorPosition = 3\<rparr> False
     = Inr ''? Pick Gamma'' \<and>
   render plainEnv (exampleConfig example1) \<lparr>status = Pending, cursorPosition = 0\<rparr> True
     = Inr (''? Pick (Use arrow keys)'' @ newline @ ''> Alpha'' @ newline @ '' ---'' @ newline @
            ''- b (disabled)'' @ newline @ ''  Gamma'' @ ansi_cursorHide plainEnv)"
proof -
  have r: "reachable (choices (exampleConfig example1)) \<lparr>status = Pending, cursorPosition = 3\<rparr>"
    using reachable_example1 by (simp add: exampleConfig_def)
  have "\<exists>confirmed.
         index_at (choices (exampleConfig example1))
             (cursorPosition \<lparr>status = Pending, cursorPosition = 3\<rparr>) = Some (IsChoice confirmed) \<and>
         onKeypress (choices (exampleConfig example1)) \<lparr>status = Pending, cursorPosition = 3\<rparr> EnterKey =
           Some (Inr (\<lparr>status = Pending, cursorPosition = 3\<rparr>\<lparr>status := Done\<rparr>,
                      [Some (choice_value confirmed)])) \<and>
         render plainEnv (exampleConfig example1)
             (\<lparr>status = Pending, cursorPosition = 3\<rparr>\<lparr>status := Done\<rparr>) False =
           Inr (usePrefix plainEnv @ '' '' @ renderMessage plainEnv (exampleConfig example1) False @
                '' '' @ chalk_cyan plainEnv (name_or_value confirmed))"
    using C8_done_and_pending_frames [of "\<lparr>status = Pending, cursorPosition = 3\<rparr>"
        "exampleConfig example1" _ plainEnv False] r
    by blast
  then have "onKeypress (choices (exampleConfig example1)) \<lparr>status = Pending, cursorPosition = 3\<rparr> EnterKey
     = Some (Inr (\<lparr>status = Done, cursorPosition = 3\<rparr>, [Some ''c'']))"
    by (auto simp: exampleConfig_def example1_def mkChoice_def index_at_def)
  then show ?thesis
    using r done_frame_example1 pending_frame_example1
    by (simp add: exampleConfig_def example1_def mkChoice_def index_at_def plainEnv_def)
qed

text \<open>
  As stated, C8 fails twice. After a confirmation on a choice whose name is present and
  empty, the frame shows the value, not the name. And the handler still moves the cursor
  after a confirmation: after the confirm key and the down key on two choices,
  \<^verbatim>\<open>done\<close> has received the value of the first and the frame shows the label of the
  second.
\<close>

theorem C8_done_frame_counterexample:
  "initialState [mkChoice ''a'' (Some '''') None] = Inr \<lparr>status = Pending, cursorPosition = 0\<rparr> \<and>
   onKeypress [mkChoice ''a'' (Some '''') None] \<lparr>status = Pending, cursorPosition = 0\<rparr> EnterKey
     = Some (Inr (\<lparr>status = Done, cursorPosition = 0\<rparr>, [Some ''a''])) \<and>
   render plainEnv (exampleConfig [mkChoice ''a'' (Some '''') None])
       \<lparr>status = Done, cursorPosition = 0\<rparr> False = Inr ''? Pick a'' \<and>
   index_at (choices (exampleConfig [mkChoice ''a'' (Some '''') None]))
       (cursorPosition \<lparr>status = Done, cursorPosition = 0\<rparr>)
     = Some (IsChoice \<lparr>choice_value = ''a'', choice_name = Some '''', choice_description = None,
                       choice_disabled = None\<rparr>) \<and>
   usePrefix plainEnv @ '' '' @
     renderMessage plainEnv (exampleConfig [mkChoice ''a'' (Some '''') None]) False @ '' '' @
     chalk_cyan plainEnv
       (spec_label \<lparr>choice_value = ''a'', choice_name = Some '''', choice_description = None,
                    choice_disabled = None\<rparr>)
     = ''? Pick '' \<and>
   initialState [mkChoice ''a'' (Some ''Alpha'') None, mkChoice ''b'' (Some ''Beta'') None]
     = Inr \<lparr>status = Pending, cursorPosition = 0\<rparr> \<and>
   runKeys [mkChoice ''a'' (Some ''Alpha'') None, mkChoice ''b'' (Some ''Beta'') None]
       \<lparr>status = Pending, cursorPosition = 0\<rparr> [EnterKey, DownKey]
     = Some (Inr (\<lparr>status = Done, cursorPosition = 1\<rparr>, [Some ''a''])) \<and>
   render plainEnv
       (exampleConfig [mkChoice ''a'' (Some ''Alpha'') None, mkChoice ''b'' (Some ''Beta'') None])
       \<lparr>status = Done, cursorPosition = 1\<rparr> False = Inr ''? Pick Beta''"
  by (simp add: initialState_def onKeypress_def findNext_unfold advance_def jsRem_def render_def
      renderMessage_def plainEnv_def exampleConfig_def mkChoice_def index_at_def
      name_or_value_def spec_label_def)

text \<open>
  Claim C9. The header carries the hint if and only if \<^verbatim>\<open>firstRender.current\<close> is true:
  every frame is the prefix, the message in bold, the hint under that flag only, and a rest
  that the flag does not enter. Every run of the view uses the flag as it finds it and
  leaves it false. So, whatever the states a prompt is rendered in, the frame of index
  \<open>i\<close> carries the hint after the message if and only if \<open>i = 0\<close>, and is otherwise the
  frame of a later render.
\<close>

theorem C9_hint_first_render_only:
  "renderMessage env config first
     = chalk_bold env (message config) @ (if first then chalk_dim env hint else []) \<and>
   (\<forall>choice. index_at (choices config) (cursorPosition s) = Some choice \<longrightarrow>
      render env config s first =
        Inr (usePrefix env @ '' '' @ chalk_bold env (message config) @
             (if first then chalk_dim env hint else []) @
             (if status s = Done then '' '' @ chalk_cyan env (cursor_label choice)
              else newline @
                   paginate env
                     (join newline
                        (map (renderChoice env (cursorPosition s)) (enumerate 0 (choices config))))
                     (cursorPosition s) (pageSize config) @
                   cursor_description choice @ ansi_cursorHide env))) \<and>
   (index_at (choices config) (cursorPosition s) = None \<longrightarrow>
      render env config s first = Inl TypeError) \<and>
   view env config refs s = (render env config s (firstRender refs), refs\<lparr>firstRender := False\<rparr>) \<and>
   (\<forall>i < length ss.
      renderAll env config \<lparr>firstRender = True\<rparr> ss ! i = render env config (ss ! i) (i = 0)) \<and>
   (\<forall>i < length ss. \<forall>choice.
      index_at (choices config) (cursorPosition (ss ! i)) = Some choice \<longrightarrow>
      (\<exists>rest.
         renderAll env config \<lparr>firstRender = True\<rparr> ss ! i =
           Inr (usePrefix env @ '' '' @ chalk_bold env (message config) @
                (if i = 0 then chalk_dim env hint else []) @ rest) \<and>
         render env config (ss ! i) False =
           Inr (usePrefix env @ '' '' @ chalk_bold env (message config) @ rest)))"
proof (intro conjI allI impI)
  show "renderMessage env config first
          = chalk_bold env (message config) @ (if first then chalk_dim env hint else [])"
    by (simp add: renderMessage_def)
  show "view env config refs s = (render env config s (firstRender refs), refs\<lparr>firstRender := False\<rparr>)"
    by (simp add: view_def)
  show "render env config s first = Inl TypeError"
    if "index_at (choices config) (cursorPosition s) = None"
    using that by (rule render_undefined)
  show "render env config s first =
        Inr (usePrefix env @ '' '' @ chalk_bold env (message config) @
             (if first then chalk_dim env hint else []) @
             (if status s = Done then '' '' @ chalk_cyan env (cursor_label choice)
              else newline @
                   paginate env
                     (join newline
                        (map (renderChoice env (cursorPosition s)) (enumerate 0 (choices config))))
                     (cursorPosition s) (pageSize config) @
                   cursor_description choice @ ansi_cursorHide env))"
    if "index_at (choices config) (cursorPosition s) = Some choice" for choice
    using that by (rule render_frame)
  have nth: "renderAll env config \<lparr>firstRender = True\<rparr> ss ! i = render env config (ss ! i) (i = 0)"
    if i: "i < length ss" for i
  proof -
    from i obtain s0 rest where ss: "ss = s0 # rest" by (cases ss) auto
    show ?thesis using i unfolding ss renderAll_first by (cases i) simp_all
  qed
  show "renderAll env config \<lparr>firstRender = True\<rparr> ss ! i = render env config (ss ! i) (i = 0)"
    if "i < length ss" for i
    using that by (rule nth)
  show "\<exists>rest.
         renderAll env config \<lparr>firstRender = True\<rparr> ss ! i =
           Inr (usePrefix env @ '' '' @ chalk_bold env (message config) @
                (if i = 0 then chalk_dim env hint else []) @ rest) \<and>
         render env config (ss ! i) False =
           Inr (usePrefix env @ '' '' @ chalk_bold env (message config) @ rest)"
    if i: "i < length ss" and c: "index_at (choices config) (cursorPosition (ss ! i)) = Some choice"
    for i choice
    unfolding nth [OF i] render_frame [OF c] by simp
qed

text \<open>Three frames of Example 1, in full: only the first carries the hint.\<close>

theorem C9_hint_first_render_only_witness:
  "renderAll plainEnv (exampleConfig example1) \<lparr>firstRender = True\<rparr>
       [\<lparr>status = Pending, cursorPosition = 0\<rparr>, \<lparr>status = Pending, cursorPosition = 3\<rparr>,
        \<lparr>status = Done, cursorPosition = 3\<rparr>]
     = [Inr (''? Pick (Use arrow keys)'' @ newline @ ''> Alpha'' @ newline @ '' ---'' @ newline @
             ''- b (disabled)'' @ newline @ ''  Gamma'' @ [CHR 0x1B] @ ''[?25l''),
        Inr (''? Pick'' @ newline @ ''  Alpha'' @ newline @ '' ---'' @ newline @
             ''- b (disabled)'' @ newline @ ''> Gamma'' @ [CHR 0x1B] @ ''[?25l''),
        Inr ''? Pick Gamma'']"
proof -
  let ?ss = "[\<lparr>status = Pending, cursorPosition = 0\<rparr>, \<lparr>status = Pending, cursorPosition = 3\<rparr>,
        \<lparr>status = Done, cursorPosition = 3\<rparr>]"
  let ?frames = "renderAll plainEnv (exampleConfig example1) \<lparr>firstRender = True\<rparr> ?ss"
  have nth: "\<forall>i < length ?ss. ?frames ! i = render plainEnv (exampleConfig example1) (?ss ! i) (i = 0)"
    using C9_hint_first_render_only [of plainEnv "exampleConfig example1" True
      "\<lparr>status = Pending, cursorPosition = 0\<rparr>" "\<lparr>firstRender = True\<rparr>" ?ss]
    by blast
  from nth [rule_format, of 1]
  have "?frames ! 1 = render plainEnv (exampleConfig example1) (?ss ! 1) (1 = (0::nat))"
    by simp
  then show ?thesis
    using pending_frame_example1 later_frame_example1 done_frame_example1
    by (simp add: view_def)
qed

text \<open>
  Claim C10. A confirmation the handler returns from changes the status field only:
  \<open>cursorPosition\<close> is unchanged, the value passed to \<^verbatim>\<open>done\<close> is that of the entry the
  cursor rested on, and the frame of the new state shows the label of that same entry.
\<close>

theorem C10_confirm_changes_status_only:
  assumes "onKeypress (choices config) s EnterKey = Some (Inr (s', out))"
  shows "s' = s\<lparr>status := Done\<rparr> \<and> cursorPosition s' = cursorPosition s \<and>
         (\<exists>choice. index_at (choices config) (cursorPosition s) = Some choice \<and>
            out = [entry_value choice] \<and>
            render env config s' first =
              Inr (usePrefix env @ '' '' @ renderMessage env config first @ '' '' @
                   chalk_cyan env (cursor_label choice)))"
  using assms
  by (auto simp: onKeypress_def render_def Let_def split: option.splits)

text \<open>Example 5: confirming on the choice of value \<open>c\<close> and name \<open>Gamma\<close>.\<close>

theorem C10_confirm_changes_status_only_witness:
  "onKeypress (choices (exampleConfig example1)) \<lparr>status = Pending, cursorPosition = 3\<rparr> EnterKey
     = Some (Inr (\<lparr>status = Done, cursorPosition = 3\<rparr>, [Some ''c''])) \<and>
   render plainEnv (exampleConfig example1) \<lparr>status = Done, cursorPosition = 3\<rparr> False
     = Inr ''? Pick Gamma''"
proof -
  have h: "onKeypress (choices (exampleConfig example1)) \<lparr>status = Pending, cursorPosition = 3\<rparr> EnterKey
     = Some (Inr (\<lparr>status = Done, cursorPosition = 3\<rparr>, [Some ''c'']))"
    by (simp add: onKeypress_def exampleConfig_def example1_def mkChoice_def index_at_def)
  from C10_confirm_changes_status_only [OF h, of plainEnv False] h done_frame_example1
  show ?thesis by simp
qed

end
